theory Spec2Isabelle
  imports Complex_Main
begin

section \<open>Sequence and label generation (autoshot\_dataloader.py)\<close>

text \<open>
  One entry of a video's \<open>frame_boundaries\<close> list: the dictionary with the keys
  \<open>'from'\<close> and \<open>'to'\<close>.
\<close>

record boundary =
  b_from :: int
  b_to :: int

text \<open>One annotation record of autoshot.json, as \<open>_generate_sequences\<close> reads it.\<close>

record video_data =
  filename :: string
  vd_total_frames :: int
  num_shots :: int
  frame_boundaries :: "boundary list"

text \<open>The dictionary \<open>sequence_info\<close> appended to \<open>sequences\<close>.\<close>

record sequence_info =
  si_video_data :: video_data
  start_frame :: int
  end_frame :: int
  frame_positions :: "int list"
  si_boundary :: boundary

text \<open>The two constructor arguments of \<open>AutoshotDataset\<close> that window generation reads.\<close>

record config =
  sequence_length :: int
  random_offset_range :: int

text \<open>
  The ambient random source. \<open>random.randint(a, b)\<close> returns some integer of
  \<open>[a, b]\<close>; the source of the draws is an arbitrary stream of integers, reduced
  into the interval, and a counter of the draws made so far. Every integer of the interval is
  the outcome of some stream.
\<close>

record rng =
  draws :: "nat \<Rightarrow> int"
  drawn :: nat

definition randint :: "int \<Rightarrow> int \<Rightarrow> rng \<Rightarrow> int \<times> rng" where
  "randint a b g = (a + draws g (drawn g) mod (b - a + 1), g\<lparr>drawn := drawn g + 1\<rparr>)"

text \<open>Python's \<open>list(range(a, b))\<close> on integers.\<close>

definition py_range :: "int \<Rightarrow> int \<Rightarrow> int list" where
  "py_range a b = [a..b - 1]"

text \<open>
  The body shared by both branches of \<open>_generate_sequences\<close> (lines 108-120 and
  123-134): clamp the start, test the bound, build the dictionary. The clamp is written in the
  order of the source: first \<open>max(0, start_frame)\<close>, then
  \<open>min(start_frame, total_frames - sequence_length)\<close>.
\<close>

definition clamp_start :: "config \<Rightarrow> int \<Rightarrow> int \<Rightarrow> int" where
  "clamp_start cfg n_frames start =
     (let start1 = max 0 start;
          start2 = min start1 (n_frames - sequence_length cfg)
      in start2)"

definition emit_sequence :: "config \<Rightarrow> video_data \<Rightarrow> boundary \<Rightarrow> int \<Rightarrow> sequence_info list" where
  "emit_sequence cfg vd b start =
     (let s = clamp_start cfg (vd_total_frames vd) start
      in if s + sequence_length cfg \<le> vd_total_frames vd
         then [\<lparr>si_video_data = vd,
                start_frame = s,
                end_frame = s + sequence_length cfg - 1,
                frame_positions = py_range s (s + sequence_length cfg),
                si_boundary = b\<rparr>]
         else [])"

text \<open>The loop \<open>for _ in range(3)\<close> of the augmentation branch, \<open>n\<close> rounds left.\<close>

fun variations :: "config \<Rightarrow> video_data \<Rightarrow> boundary \<Rightarrow> int \<Rightarrow> nat \<Rightarrow> rng
    \<Rightarrow> sequence_info list \<times> rng" where
  "variations cfg vd b base_start 0 g = ([], g)"
| "variations cfg vd b base_start (Suc n) g =
     (let (offset, g1) = randint (- random_offset_range cfg) (random_offset_range cfg) g;
          here = emit_sequence cfg vd b (base_start + offset);
          (rest, g2) = variations cfg vd b base_start n g1
      in (here @ rest, g2))"

text \<open>The body of the loop over the boundaries of one video.\<close>

definition boundary_sequences :: "config \<Rightarrow> video_data \<Rightarrow> boundary \<Rightarrow> rng
    \<Rightarrow> sequence_info list \<times> rng" where
  "boundary_sequences cfg vd b g =
     (let transition_center = (b_from b + b_to b) div 2;
          half_length = sequence_length cfg div 2;
          base_start = transition_center - half_length
      in if random_offset_range cfg > 0
         then variations cfg vd b base_start 3 g
         else (emit_sequence cfg vd b base_start, g))"

fun boundaries_loop :: "config \<Rightarrow> video_data \<Rightarrow> boundary list \<Rightarrow> rng
    \<Rightarrow> sequence_info list \<times> rng" where
  "boundaries_loop cfg vd [] g = ([], g)"
| "boundaries_loop cfg vd (b # bs) g =
     (let (here, g1) = boundary_sequences cfg vd b g;
          (rest, g2) = boundaries_loop cfg vd bs g1
      in (here @ rest, g2))"

text \<open>\<open>_generate_sequences\<close>, over \<open>self.valid_videos\<close>.\<close>

fun generate_sequences :: "config \<Rightarrow> video_data list \<Rightarrow> rng \<Rightarrow> sequence_info list \<times> rng" where
  "generate_sequences cfg [] g = ([], g)"
| "generate_sequences cfg (vd # vds) g =
     (let (here, g1) = boundaries_loop cfg vd (frame_boundaries vd) g;
          (rest, g2) = generate_sequences cfg vds g1
      in (here @ rest, g2))"

text \<open>The three-way test of \<open>_get_scene_labels\<close>, for one frame position.\<close>

definition scene_label :: "boundary \<Rightarrow> int \<Rightarrow> int" where
  "scene_label b frame_pos =
     (if frame_pos \<le> b_from b then 0
      else if frame_pos \<ge> b_to b then 2
      else 1)"

definition get_scene_labels :: "sequence_info \<Rightarrow> int list" where
  "get_scene_labels si = map (scene_label (si_boundary si)) (frame_positions si)"


section \<open>Random-access frame reader (utils/video\_reader.py)\<close>

text \<open>
  The exceptions the reader raises, or that Python raises in it: \<open>FileNotFoundError\<close>
  (line 35), the \<open>RuntimeError\<close> of \<open>open\<close> (line 56), the \<open>ValueError\<close> of the
  range check (line 94), the \<open>RuntimeError\<close> of a failed read (line 106), the
  \<open>ZeroDivisionError\<close> of \<open>position / self.fps\<close> with a frame rate of zero, the
  \<open>TypeError\<close> of an operation on a \<open>None\<close> attribute, the \<open>ValueError\<close> of
  \<open>range\<close> with step zero, and the \<open>AttributeError\<close> of a call on \<open>None\<close>.
\<close>

datatype error =
    FileNotFoundError
  | RuntimeError_open
  | ValueError_range
  | RuntimeError_read
  | ZeroDivisionError
  | TypeError
  | ValueError_step
  | AttributeError

text \<open>The dataclass \<open>FrameData\<close>; \<open>'img\<close> stands for the pixel array.\<close>

record 'img FrameData =
  frame :: 'img
  position :: int
  timestamp :: real

text \<open>
  A \<open>FrameData\<close> object is never mutated after its construction, so a reference to one is
  modelled as its allocation number together with its content: two references are the same
  object exactly when the numbers agree.
\<close>

type_synonym 'img frame_ref = "nat \<times> 'img FrameData"

text \<open>
  What lies outside the reader: the video file behind the path as OpenCV presents it. Whether
  \<open>isOpened()\<close> holds for a capture of it, the frame count and frame rate properties, the
  frame size, and the outcome of \<open>cap.set(CAP_PROP_POS_FRAMES, p); cap.read()\<close>, where
  \<open>None\<close> stands for \<open>ret == False\<close>.
\<close>

record 'img video =
  v_opens :: bool
  v_frame_count :: int
  v_fps :: real
  v_width :: int
  v_height :: int
  v_frames :: "int \<Rightarrow> 'img option"

text \<open>A \<open>cv2.VideoCapture\<close> object: created by \<open>open\<close>, opened or not.\<close>

datatype capture = Capture (cap_isOpened: bool)

text \<open>The calls on OpenCV that create or release a capture, seek and read.\<close>

datatype cap_call = Call_VideoCapture | Call_release | Call_set int | Call_read

text \<open>
  The attributes of a \<open>VideoReader\<close>: \<open>video_path\<close>, \<open>_cap\<close>,
  \<open>_total_frames\<close>, \<open>_fps\<close>, \<open>_frame_cache\<close>. Two more fields are bookkeeping of
  the model and are read by no operation: \<open>cap_calls\<close> lists the OpenCV calls made so
  far, \<open>allocated\<close> counts the \<open>FrameData\<close> objects constructed so far.
\<close>

record 'img VideoReader =
  video_path :: string
  r_cap :: "capture option"
  r_total_frames :: "int option"
  r_fps :: "real option"
  r_frame_cache :: "int \<rightharpoonup> 'img frame_ref"
  cap_calls :: "cap_call list"
  allocated :: nat

text \<open>
  \<open>__init__\<close>: \<open>fs\<close> is the set of the paths that exist. No capture is created here.
\<close>

definition reader_init :: "string set \<Rightarrow> string \<Rightarrow> error + 'img VideoReader" where
  "reader_init fs path =
     (if path \<notin> fs then Inl FileNotFoundError
      else Inr \<lparr>video_path = path, r_cap = None, r_total_frames = None, r_fps = None,
                r_frame_cache = Map.empty, cap_calls = [], allocated = 0\<rparr>)"

text \<open>
  Every operation returns its outcome (\<open>Inl\<close> the exception raised) together with the
  reader as the call leaves it, also when it raises.

  \<open>open\<close>: the new capture is assigned to \<open>_cap\<close> before \<open>isOpened()\<close> is tested, so
  it stays there when the test fails.
\<close>

definition reader_open :: "'img video \<Rightarrow> 'img VideoReader \<Rightarrow> (error + unit) \<times> 'img VideoReader" where
  "reader_open v r =
     (case r_cap r of
        None \<Rightarrow>
          (let r1 = r\<lparr>r_cap := Some (Capture (v_opens v)),
                       cap_calls := cap_calls r @ [Call_VideoCapture]\<rparr>
           in if \<not> v_opens v then (Inl RuntimeError_open, r1)
              else (Inr (), r1\<lparr>r_total_frames := Some (v_frame_count v),
                                r_fps := Some (v_fps v)\<rparr>))
      | Some c \<Rightarrow> (Inr (), r))"

definition reader_close :: "'img VideoReader \<Rightarrow> 'img VideoReader" where
  "reader_close r =
     (let r1 = (case r_cap r of
                  Some c \<Rightarrow> r\<lparr>r_cap := None, cap_calls := cap_calls r @ [Call_release]\<rparr>
                | None \<Rightarrow> r)
      in r1\<lparr>r_frame_cache := Map.empty\<rparr>)"

text \<open>The properties \<open>total_frames\<close> and \<open>fps\<close>; each may return \<open>None\<close>.\<close>

definition total_frames :: "'img video \<Rightarrow> 'img VideoReader
    \<Rightarrow> (error + int option) \<times> 'img VideoReader" where
  "total_frames v r =
     (case r_total_frames r of
        None \<Rightarrow> (case reader_open v r of
                    (Inl e, r1) \<Rightarrow> (Inl e, r1)
                  | (Inr u, r1) \<Rightarrow> (Inr (r_total_frames r1), r1))
      | Some n \<Rightarrow> (Inr (Some n), r))"

definition fps :: "'img video \<Rightarrow> 'img VideoReader
    \<Rightarrow> (error + real option) \<times> 'img VideoReader" where
  "fps v r =
     (case r_fps r of
        None \<Rightarrow> (case reader_open v r of
                    (Inl e, r1) \<Rightarrow> (Inl e, r1)
                  | (Inr u, r1) \<Rightarrow> (Inr (r_fps r1), r1))
      | Some f \<Rightarrow> (Inr (Some f), r))"

text \<open>\<open>cap.set(CAP_PROP_POS_FRAMES, position); cap.read()\<close> on a capture.\<close>

definition cap_read :: "'img video \<Rightarrow> capture \<Rightarrow> int \<Rightarrow> 'img option" where
  "cap_read v c pos = (if cap_isOpened c then v_frames v pos else None)"

text \<open>
  Lines 99-114 of \<open>get_frame_at_position\<close>: open if needed, seek and read, compute the
  timestamp, construct the \<open>FrameData\<close>, store it when caching is on.
\<close>

definition decode_frame :: "'img video \<Rightarrow> int \<Rightarrow> bool \<Rightarrow> 'img VideoReader
    \<Rightarrow> (error + 'img frame_ref) \<times> 'img VideoReader" where
  "decode_frame v pos use_cache r =
     (case (if r_cap r = None then reader_open v r else (Inr (), r)) of
        (Inl e, r1) \<Rightarrow> (Inl e, r1)
      | (Inr u, r1) \<Rightarrow>
          (case r_cap r1 of
             None \<Rightarrow> (Inl AttributeError, r1)
           | Some c \<Rightarrow>
               (let r2 = r1\<lparr>cap_calls := cap_calls r1 @ [Call_set pos, Call_read]\<rparr>
                in case cap_read v c pos of
                     None \<Rightarrow> (Inl RuntimeError_read, r2)
                   | Some img \<Rightarrow>
                       (case fps v r2 of
                          (Inl e, r3) \<Rightarrow> (Inl e, r3)
                        | (Inr None, r3) \<Rightarrow> (Inl TypeError, r3)
                        | (Inr (Some f), r3) \<Rightarrow>
                            if f = 0 then (Inl ZeroDivisionError, r3)
                            else
                              (let frame_data =
                                     (allocated r3,
                                      \<lparr>frame = img, position = pos,
                                       timestamp = real_of_int pos / f\<rparr>);
                                   r4 = r3\<lparr>allocated := allocated r3 + 1\<rparr>
                               in if use_cache
                                  then (Inr frame_data,
                                        r4\<lparr>r_frame_cache := (r_frame_cache r4)(pos \<mapsto> frame_data)\<rparr>)
                                  else (Inr frame_data, r4))))))"

text \<open>
  \<open>get_frame_at_position\<close>. The chained comparison \<open>0 <= position < self.total_frames\<close>
  reads the property only when \<open>0 <= position\<close> holds; the message of the
  \<open>ValueError\<close> reads it in every case, so a failing \<open>open\<close> is raised in place of the
  \<open>ValueError\<close>. Comparing with a \<open>None\<close> frame count is a \<open>TypeError\<close>.
\<close>

definition get_frame_at_position :: "'img video \<Rightarrow> int \<Rightarrow> bool \<Rightarrow> 'img VideoReader
    \<Rightarrow> (error + 'img frame_ref) \<times> 'img VideoReader" where
  "get_frame_at_position v pos use_cache r =
     (if \<not> 0 \<le> pos
      then (case total_frames v r of
              (Inl e, r1) \<Rightarrow> (Inl e, r1)
            | (Inr n, r1) \<Rightarrow> (Inl ValueError_range, r1))
      else (case total_frames v r of
              (Inl e, r1) \<Rightarrow> (Inl e, r1)
            | (Inr None, r1) \<Rightarrow> (Inl TypeError, r1)
            | (Inr (Some n), r1) \<Rightarrow>
                if \<not> pos < n then (Inl ValueError_range, r1)
                else (case (if use_cache then r_frame_cache r1 pos else None) of
                        Some cached \<Rightarrow> (Inr cached, r1)
                      | None \<Rightarrow> decode_frame v pos use_cache r1)))"

text \<open>
  A position specification: an item is an integer or a nested list (or tuple) of items.
\<close>

datatype pos_item = Pos int | Nested "pos_item list"

fun flatten_positions :: "pos_item list \<Rightarrow> int list" where
  "flatten_positions [] = []"
| "flatten_positions (Nested items # rest) = flatten_positions items @ flatten_positions rest"
| "flatten_positions (Pos i # rest) = i # flatten_positions rest"

text \<open>
  The integers a position specification contains, at whatever depth: read off the structure
  of the specification, with no traversal order and no accumulator. This is what
  \<open>set(flatten(L))\<close> means in the specification of \<open>get_frames\<close>;
  \<open>flatten_positions\<close> above is the traversal the source performs.
\<close>

fun ints_in_item :: "pos_item \<Rightarrow> int set" where
  "ints_in_item (Pos i) = {i}"
| "ints_in_item (Nested items) = (\<Union>item \<in> set items. ints_in_item item)"

definition ints_in :: "pos_item list \<Rightarrow> int set" where
  "ints_in L = (\<Union>item \<in> set L. ints_in_item item)"

text \<open>
  The same for order and multiplicity: the integers of an item from left to right, every
  occurrence counted.
\<close>

fun leaves_of_item :: "pos_item \<Rightarrow> int list" where
  "leaves_of_item (Pos i) = [i]"
| "leaves_of_item (Nested items) = concat (map leaves_of_item items)"

text \<open>Python's \<open>sorted(set(xs))\<close> on integers.\<close>

definition sorted_set :: "int list \<Rightarrow> int list" where
  "sorted_set xs = sort (remdups xs)"

text \<open>The loop of \<open>get_frames\<close> over \<open>unique_positions\<close>.\<close>

fun frames_loop :: "'img video \<Rightarrow> bool \<Rightarrow> int list \<Rightarrow> 'img VideoReader
    \<Rightarrow> (error + 'img frame_ref list) \<times> 'img VideoReader" where
  "frames_loop v use_cache [] r = (Inr [], r)"
| "frames_loop v use_cache (p # ps) r =
     (case get_frame_at_position v p use_cache r of
        (Inl e, r1) \<Rightarrow> (Inl e, r1)
      | (Inr frame_data, r1) \<Rightarrow>
          (case frames_loop v use_cache ps r1 of
             (Inl e, r2) \<Rightarrow> (Inl e, r2)
           | (Inr frames, r2) \<Rightarrow> (Inr (frame_data # frames), r2)))"

text \<open>
  The body of \<open>get_frames\<close> once the positions are flat; \<open>get_frames_from_ranges\<close> and
  \<open>get_frames_around_positions\<close> pass a flat list of integers.
\<close>

definition get_frames_flat :: "'img video \<Rightarrow> int list \<Rightarrow> bool \<Rightarrow> 'img VideoReader
    \<Rightarrow> (error + 'img frame_ref list) \<times> 'img VideoReader" where
  "get_frames_flat v flattened_positions use_cache r =
     (let unique_positions = sorted_set flattened_positions
      in frames_loop v use_cache unique_positions r)"

definition get_frames :: "'img video \<Rightarrow> pos_item list \<Rightarrow> bool \<Rightarrow> 'img VideoReader
    \<Rightarrow> (error + 'img frame_ref list) \<times> 'img VideoReader" where
  "get_frames v positions use_cache r =
     get_frames_flat v (flatten_positions positions) use_cache r"

text \<open>The positions of the frames a call returned: \<open>[f.position for f in frames]\<close>.\<close>

definition positions_of :: "(error + 'img frame_ref list) \<times> 'img VideoReader \<Rightarrow> error + int list" where
  "positions_of out = map_sum id (map (\<lambda>fd. position (snd fd))) (fst out)"

text \<open>Python's \<open>list(range(a, b, step))\<close>; step zero raises.\<close>

definition py_range_step :: "int \<Rightarrow> int \<Rightarrow> int \<Rightarrow> error + int list" where
  "py_range_step a b step =
     (if step = 0 then Inl ValueError_step
      else if step > 0
        then Inr (map (\<lambda>k. a + int k * step) [0..<nat ((b - a + step - 1) div step)])
        else Inr (map (\<lambda>k. a + int k * step) [0..<nat ((a - b - step - 1) div (- step))]))"

fun ranges_loop :: "int \<Rightarrow> (int \<times> int) list \<Rightarrow> error + int list" where
  "ranges_loop step [] = Inr []"
| "ranges_loop step ((start, end) # rest) =
     (let (start1, end1) = (if start > end then (end, start) else (start, end))
      in case py_range_step start1 (end1 + 1) step of
           Inl e \<Rightarrow> Inl e
         | Inr here \<Rightarrow> (case ranges_loop step rest of
                          Inl e \<Rightarrow> Inl e
                        | Inr others \<Rightarrow> Inr (here @ others)))"

definition get_frames_from_ranges :: "'img video \<Rightarrow> (int \<times> int) list \<Rightarrow> int \<Rightarrow> bool
    \<Rightarrow> 'img VideoReader \<Rightarrow> (error + 'img frame_ref list) \<times> 'img VideoReader" where
  "get_frames_from_ranges v position_ranges step use_cache r =
     (case ranges_loop step position_ranges of
        Inl e \<Rightarrow> (Inl e, r)
      | Inr positions \<Rightarrow> get_frames_flat v positions use_cache r)"

text \<open>
  Lines 180-182 of \<open>get_frames_around_positions\<close>: the positions one centre contributes,
  for a frame count \<open>n\<close> and a half window \<open>h\<close>.
\<close>

definition window_around :: "int \<Rightarrow> int \<Rightarrow> int \<Rightarrow> int list" where
  "window_around n h pos =
     (let start = max 0 (pos - h);
          end = min (n - 1) (pos + h)
      in py_range start (end + 1))"

text \<open>
  The loop of \<open>get_frames_around_positions\<close>, which reads the property
  \<open>total_frames\<close> once for each centre.
\<close>

fun around_loop :: "'img video \<Rightarrow> int \<Rightarrow> int list \<Rightarrow> 'img VideoReader
    \<Rightarrow> (error + int list) \<times> 'img VideoReader" where
  "around_loop v half_window [] r = (Inr [], r)"
| "around_loop v half_window (pos # rest) r =
     (case total_frames v r of
        (Inl e, r1) \<Rightarrow> (Inl e, r1)
      | (Inr None, r1) \<Rightarrow> (Inl TypeError, r1)
      | (Inr (Some n), r1) \<Rightarrow>
          (case around_loop v half_window rest r1 of
             (Inl e, r2) \<Rightarrow> (Inl e, r2)
           | (Inr others, r2) \<Rightarrow> (Inr (window_around n half_window pos @ others), r2)))"

definition get_frames_around_positions :: "'img video \<Rightarrow> int list \<Rightarrow> int \<Rightarrow> bool
    \<Rightarrow> 'img VideoReader \<Rightarrow> (error + 'img frame_ref list) \<times> 'img VideoReader" where
  "get_frames_around_positions v positions window_size use_cache r =
     (let half_window = window_size div 2
      in case around_loop v half_window positions r of
           (Inl e, r1) \<Rightarrow> (Inl e, r1)
         | (Inr all_positions, r1) \<Rightarrow> get_frames_flat v all_positions use_cache r1)"

text \<open>
  \<open>extract_frames_batch\<close>: the frames come from \<open>get_frames\<close> with caching on; writing
  them to \<open>output_dir\<close> touches the file system only, not the reader.
\<close>

definition extract_frames_batch :: "'img video \<Rightarrow> pos_item list \<Rightarrow> 'img VideoReader
    \<Rightarrow> (error + 'img frame_ref list) \<times> 'img VideoReader" where
  "extract_frames_batch v positions r = get_frames v positions True r"

record video_info =
  info_path :: string
  info_total_frames :: int
  info_fps :: real
  info_duration_seconds :: real
  info_width :: int
  info_height :: int

definition get_video_info :: "'img video \<Rightarrow> 'img VideoReader
    \<Rightarrow> (error + video_info) \<times> 'img VideoReader" where
  "get_video_info v r =
     (case (if r_cap r = None then reader_open v r else (Inr (), r)) of
        (Inl e, r1) \<Rightarrow> (Inl e, r1)
      | (Inr u, r1) \<Rightarrow>
          (case total_frames v r1 of
             (Inl e, r2) \<Rightarrow> (Inl e, r2)
           | (Inr n_opt, r2) \<Rightarrow>
               (case fps v r2 of
                  (Inl e, r3) \<Rightarrow> (Inl e, r3)
                | (Inr f_opt, r3) \<Rightarrow>
                    (case (n_opt, f_opt) of
                       (Some n, Some f) \<Rightarrow>
                         if f = 0 then (Inl ZeroDivisionError, r3)
                         else (Inr \<lparr>info_path = video_path r3, info_total_frames = n,
                                    info_fps = f, info_duration_seconds = real_of_int n / f,
                                    info_width = v_width v, info_height = v_height v\<rparr>, r3)
                     | _ \<Rightarrow> (Inl TypeError, r3)))))"

text \<open>
  The public operations as data, and the reader a call leaves behind whether it returns or
  raises. \<open>__enter__\<close> is \<open>open\<close> and \<open>__exit__\<close> is \<open>close\<close>.
\<close>

datatype operation =
    Op_open
  | Op_close
  | Op_total_frames
  | Op_fps
  | Op_get_frame_at_position int bool
  | Op_get_frames "pos_item list" bool
  | Op_get_frames_from_ranges "(int \<times> int) list" int bool
  | Op_get_frames_around_positions "int list" int bool
  | Op_extract_frames_batch "pos_item list"
  | Op_get_video_info

fun after_call :: "'img video \<Rightarrow> operation \<Rightarrow> 'img VideoReader \<Rightarrow> 'img VideoReader" where
  "after_call v Op_open r = snd (reader_open v r)"
| "after_call v Op_close r = reader_close r"
| "after_call v Op_total_frames r = snd (total_frames v r)"
| "after_call v Op_fps r = snd (fps v r)"
| "after_call v (Op_get_frame_at_position pos uc) r = snd (get_frame_at_position v pos uc r)"
| "after_call v (Op_get_frames positions uc) r = snd (get_frames v positions uc r)"
| "after_call v (Op_get_frames_from_ranges ranges step uc) r =
     snd (get_frames_from_ranges v ranges step uc r)"
| "after_call v (Op_get_frames_around_positions positions w uc) r =
     snd (get_frames_around_positions v positions w uc r)"
| "after_call v (Op_extract_frames_batch positions) r = snd (extract_frames_batch v positions r)"
| "after_call v Op_get_video_info r = snd (get_video_info v r)"

fun after_calls :: "'img video \<Rightarrow> operation list \<Rightarrow> 'img VideoReader \<Rightarrow> 'img VideoReader" where
  "after_calls v [] r = r"
| "after_calls v (c # cs) r = after_calls v cs (after_call v c r)"

section \<open>Invariant of the reader\<close>

text \<open>
  What holds of a reader built by \<open>__init__\<close> and used through its operations, for the
  video \<open>v\<close> behind its path: a capture in \<open>_cap\<close> is one of \<open>v\<close>, the frame count
  and rate are unset together or are those of \<open>v\<close>, and every cache entry sits under its own
  position, inside the video, and was allocated earlier.
\<close>

definition meta_ok :: "'img video \<Rightarrow> 'img VideoReader \<Rightarrow> bool" where
  "meta_ok v r \<longleftrightarrow>
     (\<forall>c. r_cap r = Some c \<longrightarrow>
        cap_isOpened c = v_opens v \<and> (v_opens v \<longrightarrow> r_total_frames r \<noteq> None))
   \<and> (r_total_frames r = None \<and> r_fps r = None
        \<or> v_opens v \<and> r_total_frames r = Some (v_frame_count v) \<and> r_fps r = Some (v_fps v))"

definition cache_ok :: "'img video \<Rightarrow> 'img VideoReader \<Rightarrow> bool" where
  "cache_ok v r \<longleftrightarrow>
     (\<forall>k fd. r_frame_cache r k = Some fd \<longrightarrow>
        position (snd fd) = k \<and> 0 \<le> k \<and> k < v_frame_count v
        \<and> r_total_frames r \<noteq> None \<and> fst fd < allocated r)"

definition wf_reader :: "'img video \<Rightarrow> 'img VideoReader \<Rightarrow> bool" where
  "wf_reader v r \<longleftrightarrow> meta_ok v r \<and> cache_ok v r"

text \<open>The \<open>FrameData\<close> object that a successful decode of frame \<open>pos\<close> constructs.\<close>

definition new_frame :: "'img video \<Rightarrow> 'img VideoReader \<Rightarrow> int \<Rightarrow> 'img \<Rightarrow> 'img frame_ref" where
  "new_frame v r pos img =
     (allocated r, \<lparr>frame = img, position = pos, timestamp = real_of_int pos / v_fps v\<rparr>)"

section \<open>Concrete inputs\<close>

definition no_draws :: rng where
  "no_draws = \<lparr>draws = (\<lambda>_. 0), drawn = 0\<rparr>"

definition short_video :: "boundary \<Rightarrow> video_data" where
  "short_video b =
     \<lparr>filename = ''short.mp4'', vd_total_frames = 10, num_shots = 1, frame_boundaries = [b]\<rparr>"

definition scenario_A_video :: video_data where
  "scenario_A_video =
     \<lparr>filename = ''a.mp4'', vd_total_frames = 100, num_shots = 1,
      frame_boundaries = [\<lparr>b_from = 40, b_to = 41\<rparr>]\<rparr>"

definition scenario_A_window :: sequence_info where
  "scenario_A_window =
     \<lparr>si_video_data = scenario_A_video, start_frame = 32, end_frame = 47,
      frame_positions = [32, 33, 34, 35, 36, 37, 38, 39, 40, 41, 42, 43, 44, 45, 46, 47],
      si_boundary = \<lparr>b_from = 40, b_to = 41\<rparr>\<rparr>"


definition demo_video :: "nat video" where
  "demo_video =
     \<lparr>v_opens = True, v_frame_count = 100, v_fps = 30, v_width = 1920, v_height = 1080,
      v_frames = (\<lambda>p. if 0 \<le> p \<and> p < 100 then Some (nat p) else None)\<rparr>"

definition new_reader :: "nat VideoReader" where
  "new_reader =
     \<lparr>video_path = ''test_video.mp4'', r_cap = None, r_total_frames = None, r_fps = None,
      r_frame_cache = Map.empty, cap_calls = [], allocated = 0\<rparr>"

definition demo_calls :: "operation list" where
  "demo_calls =
     [Op_get_frame_at_position 50 True, Op_close,
      Op_get_frames [Pos 20, Nested [Pos 10, Pos 20]] True, Op_get_frame_at_position 100 True]"

definition demo_positions :: "pos_item list" where
  "demo_positions =
     [Pos 20, Nested [Pos 10, Nested [Pos 20, Nested [Nested [Pos 7]]], Nested []], Pos 10]"

section \<open>Properties of window generation\<close>

text \<open>
  After the clamp of the source the start is at most \<open>total_frames - sequence_length\<close>,
  so the test \<open>start_frame + sequence_length <= total_frames\<close> holds at every call: no
  trial is ever rejected.
\<close>

lemma clamp_start_le: "clamp_start cfg n s \<le> n - sequence_length cfg"
  by (simp add: clamp_start_def)

lemma clamp_start_short: "n < sequence_length cfg \<Longrightarrow> clamp_start cfg n s = n - sequence_length cfg"
  by (simp add: clamp_start_def)

lemma clamp_start_long:
  "sequence_length cfg \<le> n \<Longrightarrow> 0 \<le> clamp_start cfg n s"
  by (simp add: clamp_start_def)

lemma emit_sequence_accepts:
  "emit_sequence cfg vd b s =
     [\<lparr>si_video_data = vd,
       start_frame = clamp_start cfg (vd_total_frames vd) s,
       end_frame = clamp_start cfg (vd_total_frames vd) s + sequence_length cfg - 1,
       frame_positions = py_range (clamp_start cfg (vd_total_frames vd) s)
                           (clamp_start cfg (vd_total_frames vd) s + sequence_length cfg),
       si_boundary = b\<rparr>]"
  using clamp_start_le [of cfg "vd_total_frames vd" s]
  by (simp add: emit_sequence_def Let_def)

text \<open>
  C1. The claim: a video with fewer frames than \<open>sequence_length\<close> yields no window,
  whatever the boundary. The code at \<open>total_frames = 10\<close>, \<open>sequence_length = 16\<close>,
  no jitter, any boundary \<open>b\<close> and any random source: one window is emitted, and it starts
  at frame \<open>-6\<close>.
\<close>

theorem short_video_emits_window:
  "fst (generate_sequences \<lparr>sequence_length = 16, random_offset_range = 0\<rparr> [short_video b] g) =
     [\<lparr>si_video_data = short_video b, start_frame = - 6, end_frame = 9,
       frame_positions = [- 6, - 5, - 4, - 3, - 2, - 1, 0, 1, 2, 3, 4, 5, 6, 7, 8, 9],
       si_boundary = b\<rparr>]"
  by (simp add: short_video_def boundary_sequences_def emit_sequence_def clamp_start_def
      py_range_def Let_def upto.simps)

text \<open>
  C2. The claim: every position of every emitted window lies in \<open>[0, total_frames)\<close>.
  The code at \<open>total_frames = 10\<close>, \<open>sequence_length = 16\<close>, jitter range 5, any
  boundary and any random source: the three trials all emit the window of the frames
  \<open>-6 .. 9\<close>, six of them negative.
\<close>

theorem short_video_negative_positions:
  "map frame_positions
     (fst (generate_sequences \<lparr>sequence_length = 16, random_offset_range = 5\<rparr> [short_video b] g)) =
   [[- 6, - 5, - 4, - 3, - 2, - 1, 0, 1, 2, 3, 4, 5, 6, 7, 8, 9],
    [- 6, - 5, - 4, - 3, - 2, - 1, 0, 1, 2, 3, 4, 5, 6, 7, 8, 9],
    [- 6, - 5, - 4, - 3, - 2, - 1, 0, 1, 2, 3, 4, 5, 6, 7, 8, 9]]"
  by (simp add: short_video_def boundary_sequences_def emit_sequence_accepts clamp_start_short
      randint_def py_range_def Let_def eval_nat_numeral upto.simps split_def)

text \<open>
  Where the video is at least \<open>sequence_length\<close> frames long, the emitted window does lie
  inside the video.
\<close>

lemma emit_sequence_in_bounds:
  assumes "0 \<le> sequence_length cfg" and "sequence_length cfg \<le> vd_total_frames vd"
    and "w \<in> set (emit_sequence cfg vd b s)"
  shows "int (length (frame_positions w)) = sequence_length cfg
       \<and> frame_positions w = [start_frame w..end_frame w]
       \<and> 0 \<le> start_frame w \<and> end_frame w < vd_total_frames vd"
  using assms clamp_start_le [of cfg "vd_total_frames vd" s]
    clamp_start_long [of cfg "vd_total_frames vd" s]
  by (auto simp: emit_sequence_accepts py_range_def)

text \<open>
  C3 as stated (eight labels 0, then eight labels 2) fails: frame 40 is the \<open>from\<close> frame,
  and \<open>frame_pos <= from_frame\<close> gives it label 0.
\<close>

theorem scenario_A_not_eight_eight:
  "map get_scene_labels
     (fst (generate_sequences \<lparr>sequence_length = 16, random_offset_range = 0\<rparr>
        [scenario_A_video] no_draws))
   \<noteq> [[0, 0, 0, 0, 0, 0, 0, 0, 2, 2, 2, 2, 2, 2, 2, 2]]"
  by (simp add: scenario_A_video_def boundary_sequences_def emit_sequence_def clamp_start_def
      py_range_def Let_def upto.simps get_scene_labels_def scene_label_def)

text \<open>
  C3, amended. For \<open>total_frames = 100\<close>, boundary \<open>(40, 41)\<close>,
  \<open>sequence_length = 16\<close> and no jitter, exactly one window is emitted, with
  \<open>start_frame = 32\<close> and \<open>end_frame = 47\<close>; its labels are nine times 0 (frames 32 to 40)
  followed by seven times 2 (frames 41 to 47).
\<close>

theorem scenario_A_window_and_labels:
  "fst (generate_sequences \<lparr>sequence_length = 16, random_offset_range = 0\<rparr>
          [scenario_A_video] g) = [scenario_A_window]
   \<and> get_scene_labels scenario_A_window = [0, 0, 0, 0, 0, 0, 0, 0, 0, 2, 2, 2, 2, 2, 2, 2]"
  by (simp add: scenario_A_video_def scenario_A_window_def boundary_sequences_def
      emit_sequence_def clamp_start_def py_range_def Let_def upto.simps get_scene_labels_def
      scene_label_def)

section \<open>Properties of label assignment\<close>







section \<open>The invariant is kept\<close>

text \<open>
  Each operation takes a reader that satisfies \<open>wf_reader\<close> to one that does, whether it
  returns or raises; a reader fresh from \<open>__init__\<close> satisfies it.
\<close>

lemma open_wf:
  assumes "wf_reader v r" and "reader_open v r = (res, r1)"
  shows "wf_reader v r1 \<and> r_frame_cache r1 = r_frame_cache r \<and> allocated r1 = allocated r"
  using assms
  by (auto simp: wf_reader_def meta_ok_def cache_ok_def reader_open_def Let_def
      split: option.splits if_splits)

lemma total_frames_wf:
  assumes "wf_reader v r" and "total_frames v r = (res, r1)"
  shows "wf_reader v r1 \<and> r_frame_cache r1 = r_frame_cache r \<and> allocated r1 = allocated r"
proof (cases "r_total_frames r")
  case None
  obtain x r' where o: "reader_open v r = (x, r')" by (cases "reader_open v r")
  with None assms(2) have "r1 = r'" by (auto simp: total_frames_def split: sum.splits)
  with open_wf [OF assms(1) o] show ?thesis by simp
next
  case (Some n)
  with assms show ?thesis by (simp add: total_frames_def)
qed

lemma total_frames_Some:
  assumes "wf_reader v r" and "total_frames v r = (Inr (Some n), r1)"
  shows "n = v_frame_count v \<and> v_opens v \<and> r_total_frames r1 = Some n"
  using assms
  by (auto simp: total_frames_def reader_open_def wf_reader_def meta_ok_def Let_def
      split: option.splits if_splits)

lemma fps_wf:
  assumes "wf_reader v r" and "fps v r = (res, r1)"
  shows "wf_reader v r1 \<and> r_frame_cache r1 = r_frame_cache r \<and> allocated r1 = allocated r"
proof (cases "r_fps r")
  case None
  obtain x r' where o: "reader_open v r = (x, r')" by (cases "reader_open v r")
  with None assms(2) have "r1 = r'" by (auto simp: fps_def split: sum.splits)
  with open_wf [OF assms(1) o] show ?thesis by simp
next
  case (Some n)
  with assms show ?thesis by (simp add: fps_def)
qed

lemma decode_frame_known:
  assumes "wf_reader v r" and "r_total_frames r = Some n"
    and "decode_frame v pos uc r = (res, r1)"
  shows "cap_calls r1 = cap_calls r @ (if r_cap r = None then [Call_VideoCapture] else [])
                          @ [Call_set pos, Call_read]
       \<and> r_total_frames r1 = Some n \<and> meta_ok v r1
       \<and> (case v_frames v pos of
            None \<Rightarrow> res = Inl RuntimeError_read \<and> r_frame_cache r1 = r_frame_cache r
                      \<and> allocated r1 = allocated r
          | Some img \<Rightarrow>
              if v_fps v = 0
              then res = Inl ZeroDivisionError \<and> r_frame_cache r1 = r_frame_cache r
                     \<and> allocated r1 = allocated r
              else res = Inr (new_frame v r pos img) \<and> allocated r1 = allocated r + 1
                     \<and> r_frame_cache r1 =
                         (if uc then (r_frame_cache r)(pos \<mapsto> new_frame v r pos img)
                          else r_frame_cache r))"
  using assms
  by (cases "r_cap r")
    (auto simp: decode_frame_def reader_open_def wf_reader_def meta_ok_def Let_def cap_read_def
      fps_def new_frame_def split: option.splits if_splits)

lemma decode_frame_wf:
  assumes wf: "wf_reader v r" and n: "r_total_frames r = Some n"
    and range: "0 \<le> pos" "pos < v_frame_count v"
    and d: "decode_frame v pos uc r = (res, r1)"
  shows "wf_reader v r1"
proof -
  note k = decode_frame_known [OF wf n d]
  from k have m: "meta_ok v r1" and t: "r_total_frames r1 = Some n" by simp_all
  from wf have c: "cache_ok v r" by (simp add: wf_reader_def)
  have "cache_ok v r1"
  proof (cases "v_frames v pos")
    case None
    with k c t show ?thesis by (simp add: cache_ok_def)
  next
    case (Some img)
    show ?thesis
    proof (cases "v_fps v = 0")
      case True
      with k c t Some show ?thesis by (simp add: cache_ok_def)
    next
      case False
      with k Some have a: "allocated r1 = allocated r + 1"
        and e: "r_frame_cache r1 =
                  (if uc then (r_frame_cache r)(pos \<mapsto> new_frame v r pos img) else r_frame_cache r)"
        by simp_all
      show ?thesis
        unfolding cache_ok_def
      proof (intro allI impI)
        fix k fd assume h: "r_frame_cache r1 k = Some fd"
        show "position (snd fd) = k \<and> 0 \<le> k \<and> k < v_frame_count v
              \<and> r_total_frames r1 \<noteq> None \<and> fst fd < allocated r1"
        proof (cases "uc \<and> k = pos")
          case True
          with h e have "fd = new_frame v r pos img" by simp
          with True range t a show ?thesis by (simp add: new_frame_def)
        next
          case False
          with h e have "r_frame_cache r k = Some fd" by (auto split: if_splits)
          with c have "position (snd fd) = k \<and> 0 \<le> k \<and> k < v_frame_count v
              \<and> fst fd < allocated r"
            unfolding cache_ok_def by blast
          with t a show ?thesis by simp
        qed
      qed
    qed
  qed
  with m show ?thesis by (simp add: wf_reader_def)
qed

text \<open>The three outcomes of the range check.\<close>

lemma get_frame_unfold:
  assumes "total_frames v r = (x, r0)"
  shows "get_frame_at_position v pos uc r =
     (case x of
        Inl e \<Rightarrow> (Inl e, r0)
      | Inr None \<Rightarrow> (if pos < 0 then (Inl ValueError_range, r0) else (Inl TypeError, r0))
      | Inr (Some n) \<Rightarrow>
          if pos < 0 \<or> n \<le> pos then (Inl ValueError_range, r0)
          else (case (if uc then r_frame_cache r0 pos else None) of
                  Some cached \<Rightarrow> (Inr cached, r0)
                | None \<Rightarrow> decode_frame v pos uc r0))"
  using assms
  by (auto simp: get_frame_at_position_def split: sum.splits option.splits)

lemma get_frame_wf:
  assumes wf: "wf_reader v r" and g: "get_frame_at_position v pos uc r = (res, r1)"
  shows "wf_reader v r1"
proof -
  obtain x r0 where t: "total_frames v r = (x, r0)" by (cases "total_frames v r")
  note w0 = total_frames_wf [OF wf t]
  note u = get_frame_unfold [OF t, of pos uc]
  show ?thesis
  proof (cases x)
    case (Inl e)
    with u g w0 show ?thesis by simp
  next
    case (Inr no)
    show ?thesis
    proof (cases no)
      case None
      with Inr u g w0 show ?thesis by (simp split: if_splits)
    next
      case (Some n)
      with Inr t have t': "total_frames v r = (Inr (Some n), r0)" by simp
      note s = total_frames_Some [OF wf t']
      show ?thesis
      proof (cases "pos < 0 \<or> n \<le> pos")
        case True
        with Inr Some u g w0 show ?thesis by simp
      next
        case False
        show ?thesis
        proof (cases "if uc then r_frame_cache r0 pos else None")
          case (Some cached)
          with Inr \<open>no = Some n\<close> False u g w0 show ?thesis by simp
        next
          case None
          with Inr \<open>no = Some n\<close> False u g have "decode_frame v pos uc r0 = (res, r1)" by simp
          with decode_frame_wf [of v r0 n pos uc res r1] w0 s False show ?thesis by simp
        qed
      qed
    qed
  qed
qed

lemma frames_loop_wf:
  "wf_reader v r \<Longrightarrow> frames_loop v uc ps r = (res, r1) \<Longrightarrow> wf_reader v r1"
proof (induction ps arbitrary: r res r1)
  case Nil
  then show ?case by simp
next
  case (Cons p ps)
  obtain x r' where g: "get_frame_at_position v p uc r = (x, r')"
    by (cases "get_frame_at_position v p uc r")
  note w = get_frame_wf [OF Cons.prems(1) g]
  show ?case
  proof (cases x)
    case (Inl e)
    with g Cons.prems(2) w show ?thesis by simp
  next
    case (Inr fd)
    obtain y r'' where l: "frames_loop v uc ps r' = (y, r'')"
      by (cases "frames_loop v uc ps r'")
    with Inr g Cons.prems(2) have "r1 = r''" by (auto split: sum.splits)
    with Cons.IH [OF w l] show ?thesis by simp
  qed
qed

lemma get_frames_flat_wf:
  "wf_reader v r \<Longrightarrow> get_frames_flat v ps uc r = (res, r1) \<Longrightarrow> wf_reader v r1"
  by (auto simp: get_frames_flat_def dest: frames_loop_wf)

lemma get_frames_wf:
  "wf_reader v r \<Longrightarrow> get_frames v L uc r = (res, r1) \<Longrightarrow> wf_reader v r1"
  by (auto simp: get_frames_def dest: get_frames_flat_wf)

lemma get_frames_from_ranges_wf:
  "wf_reader v r \<Longrightarrow> get_frames_from_ranges v rs step uc r = (res, r1) \<Longrightarrow> wf_reader v r1"
  by (auto simp: get_frames_from_ranges_def split: sum.splits dest: get_frames_flat_wf)

lemma around_loop_wf:
  "wf_reader v r \<Longrightarrow> around_loop v h ps r = (res, r1) \<Longrightarrow> wf_reader v r1"
proof (induction ps arbitrary: r res r1)
  case Nil
  then show ?case by simp
next
  case (Cons p ps)
  obtain x r' where t: "total_frames v r = (x, r')" by (cases "total_frames v r")
  from total_frames_wf [OF Cons.prems(1) t] have w: "wf_reader v r'" by simp
  show ?case
  proof (cases x)
    case (Inl e)
    with t Cons.prems(2) w show ?thesis by (simp add: Let_def)
  next
    case (Inr no)
    show ?thesis
    proof (cases no)
      case None
      with Inr t Cons.prems(2) w show ?thesis by (simp add: Let_def)
    next
      case (Some n)
      obtain y r'' where l: "around_loop v h ps r' = (y, r'')"
        by (cases "around_loop v h ps r'")
      with Some Inr t Cons.prems(2) have "r1 = r''" by (auto simp: Let_def split: sum.splits)
      with Cons.IH [OF w l] show ?thesis by simp
    qed
  qed
qed

lemma get_frames_around_positions_wf:
  assumes "wf_reader v r" and "get_frames_around_positions v ps w uc r = (res, r1)"
  shows "wf_reader v r1"
proof -
  obtain x r' where a: "around_loop v (w div 2) ps r = (x, r')"
    by (cases "around_loop v (w div 2) ps r")
  note w' = around_loop_wf [OF assms(1) a]
  show ?thesis
  proof (cases x)
    case (Inl e)
    with a assms(2) w' show ?thesis by (simp add: get_frames_around_positions_def)
  next
    case (Inr qs)
    with a assms(2) have "get_frames_flat v qs uc r' = (res, r1)"
      by (simp add: get_frames_around_positions_def)
    with get_frames_flat_wf [OF w'] show ?thesis by simp
  qed
qed

lemma get_video_info_wf:
  assumes "wf_reader v r" and "get_video_info v r = (res, r1)"
  shows "wf_reader v r1"
proof -
  obtain x ra where o: "(if r_cap r = None then reader_open v r else (Inr (), r)) = (x, ra)"
    by (cases "if r_cap r = None then reader_open v r else (Inr (), r)")
  have wa: "wf_reader v ra"
    using o assms(1) open_wf [of v r x ra] by (auto split: if_splits)
  obtain y rb where t: "total_frames v ra = (y, rb)" by (cases "total_frames v ra")
  from total_frames_wf [OF wa t] have wb: "wf_reader v rb" by simp
  obtain z rc where f: "fps v rb = (z, rc)" by (cases "fps v rb")
  from fps_wf [OF wb f] have wc: "wf_reader v rc" by simp
  from assms(2) o t f have "r1 = ra \<or> r1 = rb \<or> r1 = rc"
    by (auto simp: get_video_info_def split: sum.splits option.splits if_splits)
  with wa wb wc show ?thesis by blast
qed

lemma close_wf: "wf_reader v r \<Longrightarrow> wf_reader v (reader_close r)"
  by (auto simp: wf_reader_def meta_ok_def cache_ok_def reader_close_def Let_def
      split: option.splits)

lemma after_call_wf: "wf_reader v r \<Longrightarrow> wf_reader v (after_call v c r)"
proof (cases c)
  case Op_open
  assume "wf_reader v r"
  with Op_open open_wf [of v r "fst (reader_open v r)" "snd (reader_open v r)"]
  show ?thesis by simp
next
  case Op_close
  assume "wf_reader v r"
  with Op_close show ?thesis by (simp add: close_wf)
next
  case Op_total_frames
  assume "wf_reader v r"
  with Op_total_frames total_frames_wf [of v r "fst (total_frames v r)" "snd (total_frames v r)"]
  show ?thesis by simp
next
  case Op_fps
  assume "wf_reader v r"
  with Op_fps fps_wf [of v r "fst (fps v r)" "snd (fps v r)"]
  show ?thesis by simp
next
  case (Op_get_frame_at_position p uc)
  assume "wf_reader v r"
  with Op_get_frame_at_position get_frame_wf [of v r p uc
      "fst (get_frame_at_position v p uc r)" "snd (get_frame_at_position v p uc r)"]
  show ?thesis by simp
next
  case (Op_get_frames L uc)
  assume "wf_reader v r"
  with Op_get_frames get_frames_wf [of v r L uc
      "fst (get_frames v L uc r)" "snd (get_frames v L uc r)"]
  show ?thesis by simp
next
  case (Op_get_frames_from_ranges rs step uc)
  assume "wf_reader v r"
  with Op_get_frames_from_ranges get_frames_from_ranges_wf [of v r rs step uc
      "fst (get_frames_from_ranges v rs step uc r)" "snd (get_frames_from_ranges v rs step uc r)"]
  show ?thesis by simp
next
  case (Op_get_frames_around_positions ps w uc)
  assume "wf_reader v r"
  with Op_get_frames_around_positions get_frames_around_positions_wf [of v r ps w uc
      "fst (get_frames_around_positions v ps w uc r)"
      "snd (get_frames_around_positions v ps w uc r)"]
  show ?thesis by simp
next
  case (Op_extract_frames_batch L)
  assume "wf_reader v r"
  with Op_extract_frames_batch get_frames_wf [of v r L True
      "fst (get_frames v L True r)" "snd (get_frames v L True r)"]
  show ?thesis by (simp add: extract_frames_batch_def)
next
  case Op_get_video_info
  assume "wf_reader v r"
  with Op_get_video_info get_video_info_wf [of v r
      "fst (get_video_info v r)" "snd (get_video_info v r)"]
  show ?thesis by simp
qed

lemma after_calls_wf: "wf_reader v r \<Longrightarrow> wf_reader v (after_calls v cs r)"
  by (induction cs arbitrary: r) (simp_all add: after_call_wf)

lemma init_wf: "reader_init fs path = Inr r \<Longrightarrow> wf_reader v r"
  by (auto simp: reader_init_def wf_reader_def meta_ok_def cache_ok_def split: if_splits)

section \<open>Construction, the range check and the cache keys\<close>

text \<open>
  C8. Constructing a reader for a path that does not exist raises \<open>FileNotFoundError\<close>;
  for a path that exists it returns a reader with no capture, no OpenCV call made, no frame
  count or rate and an empty cache. The capture is created by the first \<open>open\<close>.
\<close>

theorem init_checks_file_only:
  "(path \<notin> fs \<longrightarrow> (reader_init fs path :: error + 'img VideoReader) = Inl FileNotFoundError)
   \<and> (path \<in> fs \<longrightarrow>
        (\<exists>r :: 'img VideoReader. reader_init fs path = Inr r
           \<and> r_cap r = None \<and> cap_calls r = [] \<and> r_total_frames r = None \<and> r_fps r = None
           \<and> r_frame_cache r = Map.empty
           \<and> cap_calls (snd (reader_open v r)) = [Call_VideoCapture]))"
  by (simp add: reader_init_def reader_open_def Let_def)

theorem init_checks_file_only_witness:
  "''missing.mp4'' \<notin> {''test_video.mp4''}
   \<and> (reader_init {''test_video.mp4''} ''missing.mp4'' :: error + nat VideoReader)
       = Inl FileNotFoundError
   \<and> ''test_video.mp4'' \<in> {''test_video.mp4''}
   \<and> reader_init {''test_video.mp4''} ''test_video.mp4'' = Inr new_reader
   \<and> r_cap new_reader = None \<and> cap_calls new_reader = []
   \<and> cap_calls (snd (reader_open demo_video new_reader)) = [Call_VideoCapture]"
proof -
  have a: "''missing.mp4'' \<notin> {''test_video.mp4''}" by simp
  have b: "''test_video.mp4'' \<in> {''test_video.mp4''}" by simp
  have c: "reader_init {''test_video.mp4''} ''test_video.mp4'' = Inr new_reader"
    by (simp add: reader_init_def new_reader_def)
  from init_checks_file_only [of "''missing.mp4''" "{''test_video.mp4''}" demo_video]
    init_checks_file_only [of "''test_video.mp4''" "{''test_video.mp4''}" demo_video] a b c
  show ?thesis by auto
qed

text \<open>
  C7. Let the property \<open>total_frames\<close> return \<open>n\<close>, leaving the reader \<open>r0\<close> (which
  is \<open>r\<close>, or \<open>r\<close> opened when the count was not yet known). For \<open>p < 0\<close> or
  \<open>p >= n\<close> the call raises the \<open>ValueError\<close> of the range check and leaves \<open>r0\<close>:
  the cache and the number of objects are those of \<open>r\<close>, and no seek or read was made. For
  \<open>0 <= p < n\<close> that error is not raised.
\<close>

theorem out_of_range_raises:
  assumes "total_frames v r = (Inr (Some n), r0)"
  shows "(p < 0 \<or> n \<le> p \<longrightarrow>
            get_frame_at_position v p uc r = (Inl ValueError_range, r0)
            \<and> r_frame_cache r0 = r_frame_cache r \<and> allocated r0 = allocated r
            \<and> cap_calls r0 =
                cap_calls r @ (if r_total_frames r = None then [Call_VideoCapture] else []))
       \<and> (0 \<le> p \<and> p < n \<longrightarrow> fst (get_frame_at_position v p uc r) \<noteq> Inl ValueError_range)"
proof -
  note u = get_frame_unfold [OF assms, of p uc]
  have s: "r_frame_cache r0 = r_frame_cache r \<and> allocated r0 = allocated r
       \<and> cap_calls r0 = cap_calls r @ (if r_total_frames r = None then [Call_VideoCapture] else [])"
    using assms
    by (auto simp: total_frames_def reader_open_def Let_def split: option.splits if_splits)
  have d: "fst (decode_frame v p uc r0) \<noteq> Inl ValueError_range"
    by (auto simp: decode_frame_def reader_open_def fps_def Let_def
        split: option.splits if_splits sum.splits prod.splits)
  have "fst (get_frame_at_position v p uc r) \<noteq> Inl ValueError_range" if "0 \<le> p" "p < n"
    using that u d by (auto split: option.splits)
  with u s show ?thesis by simp
qed

theorem out_of_range_raises_witness:
  "total_frames demo_video new_reader = (Inr (Some 100), snd (reader_open demo_video new_reader))
   \<and> get_frame_at_position demo_video 100 True new_reader
       = (Inl ValueError_range, snd (reader_open demo_video new_reader))
   \<and> get_frame_at_position demo_video (- 1) True new_reader
       = (Inl ValueError_range, snd (reader_open demo_video new_reader))
   \<and> cap_calls (snd (reader_open demo_video new_reader)) = [Call_VideoCapture]
   \<and> fst (get_frame_at_position demo_video 99 True new_reader) \<noteq> Inl ValueError_range"
proof -
  have t: "total_frames demo_video new_reader
         = (Inr (Some 100), snd (reader_open demo_video new_reader))"
    by (simp add: total_frames_def reader_open_def demo_video_def new_reader_def)
  have c: "cap_calls (snd (reader_open demo_video new_reader)) = [Call_VideoCapture]"
    by (simp add: reader_open_def demo_video_def new_reader_def)
  from out_of_range_raises [OF t, of 100 True] out_of_range_raises [OF t, of "- 1" True]
    out_of_range_raises [OF t, of 99 True] t c
  show ?thesis by simp
qed

text \<open>
  C10. After any sequence of operations on a reader built by \<open>__init__\<close>, whether the
  calls return or raise, every key of the cache lies in \<open>[0, _total_frames)\<close>. After
  \<open>close\<close> the cache is empty, also when \<open>_cap\<close> was \<open>None\<close>.
\<close>

theorem cache_keys_in_range:
  "(reader_init fs path = Inr r0 \<longrightarrow>
      (\<forall>k \<in> dom (r_frame_cache (after_calls v cs r0)).
          \<exists>n. r_total_frames (after_calls v cs r0) = Some n \<and> 0 \<le> k \<and> k < n))
   \<and> r_frame_cache (reader_close r) = Map.empty
   \<and> (r_cap r = None \<longrightarrow> reader_close r = r\<lparr>r_frame_cache := Map.empty\<rparr>)"
proof -
  have "\<exists>n. r_total_frames (after_calls v cs r0) = Some n \<and> 0 \<le> k \<and> k < n"
    if i: "reader_init fs path = Inr r0" and k: "k \<in> dom (r_frame_cache (after_calls v cs r0))"
    for k
  proof -
    let ?r = "after_calls v cs r0"
    have w: "wf_reader v ?r" using init_wf [OF i] by (rule after_calls_wf)
    from k obtain fd where "r_frame_cache ?r k = Some fd" by auto
    with w have "0 \<le> k \<and> k < v_frame_count v \<and> r_total_frames ?r \<noteq> None"
      unfolding wf_reader_def cache_ok_def by blast
    moreover from w have "r_total_frames ?r = None \<or> r_total_frames ?r = Some (v_frame_count v)"
      unfolding wf_reader_def meta_ok_def by blast
    ultimately show ?thesis by auto
  qed
  moreover have "r_frame_cache (reader_close r) = Map.empty"
    by (simp add: reader_close_def Let_def split: option.splits)
  moreover have "reader_close r = r\<lparr>r_frame_cache := Map.empty\<rparr>" if "r_cap r = None"
    using that by (simp add: reader_close_def)
  ultimately show ?thesis by blast
qed

lemma demo_calls_cache:
  "r_frame_cache (after_calls demo_video demo_calls new_reader) 10 \<noteq> None
   \<and> r_total_frames (after_calls demo_video demo_calls new_reader) = Some 100"
  by (simp add: demo_calls_def demo_video_def new_reader_def get_frame_at_position_def
      total_frames_def reader_open_def reader_close_def decode_frame_def cap_read_def fps_def
      get_frames_def get_frames_flat_def sorted_set_def Let_def)

theorem cache_keys_in_range_witness:
  "reader_init {''test_video.mp4''} ''test_video.mp4'' = Inr new_reader
   \<and> 10 \<in> dom (r_frame_cache (after_calls demo_video demo_calls new_reader))
   \<and> r_total_frames (after_calls demo_video demo_calls new_reader) = Some 100
   \<and> (\<exists>n. r_total_frames (after_calls demo_video demo_calls new_reader) = Some n
          \<and> (0::int) \<le> 10 \<and> 10 < n)
   \<and> r_cap new_reader = None
   \<and> reader_close new_reader = new_reader\<lparr>r_frame_cache := Map.empty\<rparr>"
proof -
  have i: "reader_init {''test_video.mp4''} ''test_video.mp4'' = Inr new_reader"
    by (simp add: reader_init_def new_reader_def)
  have k: "10 \<in> dom (r_frame_cache (after_calls demo_video demo_calls new_reader))"
    using demo_calls_cache by (simp add: dom_def)
  have c: "r_cap new_reader = None" by (simp add: new_reader_def)
  from cache_keys_in_range [of "{''test_video.mp4''}" "''test_video.mp4''" new_reader
      demo_video demo_calls new_reader] i k c demo_calls_cache
  show ?thesis by blast
qed

section \<open>Cached and uncached reads of one frame\<close>

lemma open_cache: "r_frame_cache (snd (reader_open v r)) = r_frame_cache r"
  by (simp add: reader_open_def Let_def split: option.splits)

lemma total_frames_cache: "r_frame_cache (snd (total_frames v r)) = r_frame_cache r"
  by (simp add: total_frames_def reader_open_def Let_def split: option.splits)

lemma fps_cache: "r_frame_cache (snd (fps v r)) = r_frame_cache r"
  by (simp add: fps_def reader_open_def Let_def split: option.splits)

lemma decode_uncached_cache: "r_frame_cache (snd (decode_frame v p False r)) = r_frame_cache r"
  by (simp add: decode_frame_def reader_open_def fps_def Let_def split: option.splits)

lemma get_frame_uncached_cache:
  "r_frame_cache (snd (get_frame_at_position v p False r)) = r_frame_cache r"
proof -
  obtain x r0 where t: "total_frames v r = (x, r0)" by (cases "total_frames v r")
  with total_frames_cache [of v r] have c: "r_frame_cache r0 = r_frame_cache r" by simp
  show ?thesis
    using get_frame_unfold [OF t, of p False] c decode_uncached_cache [of v p r0]
    by (simp split: sum.splits option.splits)
qed

lemma decode_uncached_ignores_cache:
  "fst (decode_frame v p False (r\<lparr>r_frame_cache := c\<rparr>)) = fst (decode_frame v p False r)"
  by (simp add: decode_frame_def reader_open_def fps_def Let_def split: option.splits)

lemma get_frame_uncached_ignores_cache:
  "fst (get_frame_at_position v p False (r\<lparr>r_frame_cache := c\<rparr>))
     = fst (get_frame_at_position v p False r)"
  by (simp add: get_frame_at_position_def total_frames_def decode_frame_def reader_open_def
      fps_def Let_def split: option.splits)

text \<open>Reading the property on a reader that knows the frame count changes nothing.\<close>

lemma total_frames_known: "r_total_frames r = Some n \<Longrightarrow> total_frames v r = (Inr (Some n), r)"
  by (simp add: total_frames_def)

lemma total_frames_calls:
  assumes "wf_reader v r" and "total_frames v r = (Inr (Some n), r0)"
  shows "cap_calls r0 @ (if r_cap r0 = None then [Call_VideoCapture] else [])
       = cap_calls r @ (if r_cap r = None then [Call_VideoCapture] else [])"
  using assms
  by (auto simp: total_frames_def reader_open_def wf_reader_def meta_ok_def Let_def
      split: option.splits if_splits)

text \<open>
  A call for a position inside the video, on a reader that satisfies the invariant: what it
  returns and what it leaves.
\<close>

lemma get_frame_in_range:
  assumes wf: "wf_reader v r" and t: "total_frames v r = (Inr (Some n), r0)"
    and range: "0 \<le> p" "p < n"
    and g: "get_frame_at_position v p uc r = (res, r1)"
  shows "wf_reader v r1 \<and> r_total_frames r1 = Some n
       \<and> (case (if uc then r_frame_cache r p else None) of
            Some cached \<Rightarrow> res = Inr cached \<and> r1 = r0
          | None \<Rightarrow>
              cap_calls r1 = cap_calls r @ (if r_cap r = None then [Call_VideoCapture] else [])
                               @ [Call_set p, Call_read]
              \<and> (case v_frames v p of
                    None \<Rightarrow> res = Inl RuntimeError_read \<and> r_frame_cache r1 = r_frame_cache r
                  | Some img \<Rightarrow>
                      if v_fps v = 0
                      then res = Inl ZeroDivisionError \<and> r_frame_cache r1 = r_frame_cache r
                      else res = Inr (new_frame v r p img)
                           \<and> r_frame_cache r1 =
                               (if uc then (r_frame_cache r)(p \<mapsto> new_frame v r p img)
                                else r_frame_cache r)))"
proof -
  note w0 = total_frames_wf [OF wf t]
  note s = total_frames_Some [OF wf t]
  note u = get_frame_unfold [OF t, of p uc]
  have w1: "wf_reader v r1" using wf g by (rule get_frame_wf)
  show ?thesis
  proof (cases "if uc then r_frame_cache r p else None")
    case (Some cached)
    with u g range w0 s w1 show ?thesis by (auto split: if_splits)
  next
    case None
    with u g range w0 have d: "decode_frame v p uc r0 = (res, r1)" by (auto split: if_splits)
    from w0 s have k: "wf_reader v r0" "r_total_frames r0 = Some n" by simp_all
    note dk = decode_frame_known [OF k d]
    from dk total_frames_calls [OF wf t]
    have c: "cap_calls r1 = cap_calls r @ (if r_cap r = None then [Call_VideoCapture] else [])
                               @ [Call_set p, Call_read]"
      by simp
    have nf: "new_frame v r0 p img = new_frame v r p img" for img
      using w0 by (simp add: new_frame_def)
    from dk w0 nf c w1 None show ?thesis
      by (auto split: option.splits if_splits)
  qed
qed

lemma get_frame_position:
  assumes wf: "wf_reader v r" and g: "get_frame_at_position v p uc r = (Inr fd, r1)"
  shows "position (snd fd) = p \<and> 0 \<le> p \<and> p < v_frame_count v
       \<and> fst (total_frames v r) = Inr (Some (v_frame_count v))"
proof -
  obtain x r0 where t: "total_frames v r = (x, r0)" by (cases "total_frames v r")
  from get_frame_unfold [OF t, of p uc] g obtain n where x: "x = Inr (Some n)"
    and range: "0 \<le> p" "p < n"
    by (auto split: sum.splits option.splits if_splits)
  from t x have t': "total_frames v r = (Inr (Some n), r0)" by simp
  note s = total_frames_Some [OF wf t']
  note i = get_frame_in_range [OF wf t' range g]
  have "position (snd fd) = p"
  proof (cases "if uc then r_frame_cache r p else None")
    case (Some cached)
    with i have "r_frame_cache r p = Some fd" by (auto split: if_splits)
    with wf show ?thesis unfolding wf_reader_def cache_ok_def by blast
  next
    case None
    with i show ?thesis by (auto simp: new_frame_def split: option.splits if_splits)
  qed
  with s range t' show ?thesis by simp
qed

lemma demo_wf: "wf_reader demo_video new_reader"
  by (simp add: wf_reader_def meta_ok_def cache_ok_def new_reader_def)

lemma demo_total_frames: "fst (total_frames demo_video new_reader) = Inr (Some 100)"
  by (simp add: total_frames_def reader_open_def demo_video_def new_reader_def)

text \<open>
  C6. On a reader that satisfies the invariant: when \<open>get_frame_at_position(p, True)\<close> has
  returned the object \<open>fd\<close> and left the reader \<open>r1\<close>, the same call on \<open>r1\<close> returns
  \<open>fd\<close> again and leaves \<open>r1\<close> as it is, so no OpenCV call is made. With
  \<open>use_cache = False\<close> the cache after the call is the cache before it and the outcome
  does not depend on the cache; for a position inside the video the call seeks and reads,
  and an object it returns is a new one, found nowhere in the cache.
\<close>

theorem cache_identity:
  assumes wf: "wf_reader v r"
  shows "(get_frame_at_position v p True r = (Inr fd, r1)
            \<longrightarrow> get_frame_at_position v p True r1 = (Inr fd, r1))
       \<and> r_frame_cache (snd (get_frame_at_position v p False r)) = r_frame_cache r
       \<and> fst (get_frame_at_position v p False (r\<lparr>r_frame_cache := c\<rparr>))
           = fst (get_frame_at_position v p False r)
       \<and> (fst (total_frames v r) = Inr (Some n) \<and> 0 \<le> p \<and> p < n \<longrightarrow>
            cap_calls (snd (get_frame_at_position v p False r))
              = cap_calls r @ (if r_cap r = None then [Call_VideoCapture] else [])
                  @ [Call_set p, Call_read]
            \<and> (\<forall>fd'. fst (get_frame_at_position v p False r) = Inr fd'
                  \<longrightarrow> fst fd' = allocated r \<and> fd' \<notin> ran (r_frame_cache r)))"
proof -
  have first: "get_frame_at_position v p True r1 = (Inr fd, r1)"
    if g: "get_frame_at_position v p True r = (Inr fd, r1)"
  proof -
    let ?n = "v_frame_count v"
    from get_frame_position [OF wf g]
    have range: "0 \<le> p" "p < ?n" and f: "fst (total_frames v r) = Inr (Some ?n)" by simp_all
    obtain r0 where t: "total_frames v r = (Inr (Some ?n), r0)"
      using f by (cases "total_frames v r") simp
    note i = get_frame_in_range [OF wf t range g]
    from total_frames_wf [OF wf t] have c0: "r_frame_cache r0 = r_frame_cache r" by simp
    from i have n1: "r_total_frames r1 = Some ?n" by simp
    have hit: "r_frame_cache r1 p = Some fd"
    proof (cases "r_frame_cache r p")
      case (Some cached)
      with i c0 show ?thesis by simp
    next
      case None
      with i show ?thesis by (auto split: option.splits if_splits)
    qed
    from get_frame_unfold [OF total_frames_known [OF n1], of v p True] range hit
    show ?thesis by simp
  qed
  have fresh: "cap_calls (snd (get_frame_at_position v p False r))
              = cap_calls r @ (if r_cap r = None then [Call_VideoCapture] else [])
                  @ [Call_set p, Call_read]
            \<and> (\<forall>fd'. fst (get_frame_at_position v p False r) = Inr fd'
                  \<longrightarrow> fst fd' = allocated r \<and> fd' \<notin> ran (r_frame_cache r))"
    if f: "fst (total_frames v r) = Inr (Some n)" and range: "0 \<le> p" "p < n"
  proof -
    obtain r0 where t: "total_frames v r = (Inr (Some n), r0)"
      using f by (cases "total_frames v r") simp
    obtain res r2 where g: "get_frame_at_position v p False r = (res, r2)"
      by (cases "get_frame_at_position v p False r")
    note i = get_frame_in_range [OF wf t range g]
    from i have calls: "cap_calls r2 = cap_calls r
        @ (if r_cap r = None then [Call_VideoCapture] else []) @ [Call_set p, Call_read]"
      by simp
    have "fst fd' = allocated r \<and> fd' \<notin> ran (r_frame_cache r)" if "res = Inr fd'" for fd'
    proof -
      from i that have a: "fst fd' = allocated r"
        by (auto simp: new_frame_def split: option.splits if_splits)
      have "fd' \<notin> ran (r_frame_cache r)"
      proof
        assume "fd' \<in> ran (r_frame_cache r)"
        then obtain k where "r_frame_cache r k = Some fd'" by (auto simp: ran_def)
        with wf have "fst fd' < allocated r" unfolding wf_reader_def cache_ok_def by blast
        with a show False by simp
      qed
      with a show ?thesis by simp
    qed
    with calls g show ?thesis by simp
  qed
  from first fresh get_frame_uncached_cache [of v p r]
    get_frame_uncached_ignores_cache [where v = v and p = p and r = r and c = c]
  show ?thesis by blast
qed

theorem cache_identity_witness:
  "wf_reader demo_video new_reader
   \<and> fst (get_frame_at_position demo_video 50 True new_reader)
       = Inr (0, \<lparr>frame = 50, position = 50, timestamp = 5 / 3\<rparr>)
   \<and> get_frame_at_position demo_video 50 True
         (snd (get_frame_at_position demo_video 50 True new_reader))
       = (Inr (0, \<lparr>frame = 50, position = 50, timestamp = 5 / 3\<rparr>),
          snd (get_frame_at_position demo_video 50 True new_reader))
   \<and> fst (total_frames demo_video new_reader) = Inr (Some 100)
   \<and> r_frame_cache (snd (get_frame_at_position demo_video 50 False new_reader)) = Map.empty
   \<and> cap_calls (snd (get_frame_at_position demo_video 50 False new_reader))
       = [Call_VideoCapture, Call_set 50, Call_read]"
proof -
  have f: "fst (get_frame_at_position demo_video 50 True new_reader)
         = Inr (0, \<lparr>frame = 50, position = 50, timestamp = 5 / 3\<rparr>)"
    by (simp add: get_frame_at_position_def total_frames_def reader_open_def decode_frame_def
        cap_read_def fps_def demo_video_def new_reader_def Let_def)
  then have g: "get_frame_at_position demo_video 50 True new_reader
         = (Inr (0, \<lparr>frame = 50, position = 50, timestamp = 5 / 3\<rparr>),
            snd (get_frame_at_position demo_video 50 True new_reader))"
    by (metis prod.collapse)
  have e: "r_frame_cache new_reader = Map.empty" "r_cap new_reader = None"
    "cap_calls new_reader = []"
    by (simp_all add: new_reader_def)
  from cache_identity [OF demo_wf, of 50
      "(0, \<lparr>frame = 50, position = 50, timestamp = 5 / 3\<rparr>)"
      "snd (get_frame_at_position demo_video 50 True new_reader)" Map.empty 100]
    g f demo_total_frames demo_wf e
  show ?thesis by simp
qed

section \<open>Batches of frames\<close>

lemma get_frame_in_range_outcome:
  assumes wf: "wf_reader v r" and f: "fst (total_frames v r) = Inr (Some n)"
    and range: "0 \<le> p" "p < n"
    and g: "get_frame_at_position v p uc r = (res, r1)"
  shows "wf_reader v r1 \<and> fst (total_frames v r1) = Inr (Some n)
       \<and> (case res of
            Inr fd \<Rightarrow> position (snd fd) = p
          | Inl e \<Rightarrow> e = RuntimeError_read \<and> v_frames v p = None
                     \<or> e = ZeroDivisionError \<and> v_fps v = 0)"
proof -
  obtain r0 where t: "total_frames v r = (Inr (Some n), r0)"
    using f by (cases "total_frames v r") simp
  note i = get_frame_in_range [OF wf t range g]
  from i have "fst (total_frames v r1) = Inr (Some n)" by (simp add: total_frames_known)
  moreover have "case res of
            Inr fd \<Rightarrow> position (snd fd) = p
          | Inl e \<Rightarrow> e = RuntimeError_read \<and> v_frames v p = None
                     \<or> e = ZeroDivisionError \<and> v_fps v = 0"
  proof (cases res)
    case (Inr fd)
    with g get_frame_position [OF wf, of p uc fd r1] show ?thesis by simp
  next
    case (Inl e)
    with i show ?thesis by (auto split: option.splits if_splits)
  qed
  ultimately show ?thesis using i by simp
qed

lemma frames_loop_in_range:
  assumes "wf_reader v r" and "fst (total_frames v r) = Inr (Some n)"
    and "\<forall>p \<in> set ps. 0 \<le> p \<and> p < n"
    and "frames_loop v uc ps r = (res, r1)"
  shows "(case res of
            Inr fds \<Rightarrow> map (\<lambda>fd. position (snd fd)) fds = ps
          | Inl e \<Rightarrow> e = RuntimeError_read \<or> e = ZeroDivisionError)
       \<and> (v_fps v \<noteq> 0 \<and> (\<forall>p \<in> set ps. v_frames v p \<noteq> None) \<longrightarrow> (\<exists>fds. res = Inr fds))"
  using assms
proof (induction ps arbitrary: r res r1)
  case Nil
  then show ?case by auto
next
  case (Cons p ps)
  obtain x r' where g: "get_frame_at_position v p uc r = (x, r')"
    by (cases "get_frame_at_position v p uc r")
  from Cons.prems(3) have range: "0 \<le> p" "p < n" and rest: "\<forall>q \<in> set ps. 0 \<le> q \<and> q < n"
    by simp_all
  note o = get_frame_in_range_outcome [OF Cons.prems(1,2) range g]
  show ?case
  proof (cases x)
    case (Inl e)
    with g Cons.prems(4) have "res = Inl e" by simp
    with o Inl show ?thesis by auto
  next
    case (Inr fd)
    obtain y r'' where l: "frames_loop v uc ps r' = (y, r'')"
      by (cases "frames_loop v uc ps r'")
    from o have w: "wf_reader v r'" and f: "fst (total_frames v r') = Inr (Some n)" by simp_all
    note ih = Cons.IH [OF w f rest l]
    show ?thesis
    proof (cases y)
      case (Inl e)
      with Inr g l Cons.prems(4) have "res = Inl e" by simp
      with ih Inl show ?thesis by auto
    next
      case (Inr fds)
      with \<open>x = Inr fd\<close> g l Cons.prems(4) have "res = Inr (fd # fds)" by simp
      with ih Inr o \<open>x = Inr fd\<close> show ?thesis by simp
    qed
  qed
qed

lemma sorted_set_eq: "sorted_set xs = sorted_list_of_set (set xs)"
  by (simp add: sorted_set_def sorted_list_of_set_sort_remdups)

lemma get_frames_flat_in_range:
  assumes "wf_reader v r" and "fst (total_frames v r) = Inr (Some n)"
    and "\<forall>p \<in> set qs. 0 \<le> p \<and> p < n"
  shows "(case fst (get_frames_flat v qs uc r) of
            Inr fds \<Rightarrow> map (\<lambda>fd. position (snd fd)) fds = sorted_list_of_set (set qs)
          | Inl e \<Rightarrow> e = RuntimeError_read \<or> e = ZeroDivisionError)
       \<and> (v_fps v \<noteq> 0 \<and> (\<forall>p \<in> set qs. v_frames v p \<noteq> None)
            \<longrightarrow> (\<exists>fds. fst (get_frames_flat v qs uc r) = Inr fds))"
proof -
  obtain res r1 where l: "frames_loop v uc (sorted_set qs) r = (res, r1)"
    by (cases "frames_loop v uc (sorted_set qs) r")
  have s: "set (sorted_set qs) = set qs" by (simp add: sorted_set_def)
  from assms(3) s have "\<forall>p \<in> set (sorted_set qs). 0 \<le> p \<and> p < n" by simp
  from frames_loop_in_range [OF assms(1,2) this l] l s show ?thesis
    by (cases res) (simp_all add: get_frames_flat_def sorted_set_eq)
qed

text \<open>
  The traversal of \<open>_flatten_positions\<close> yields the integers of the specification from
  left to right, each occurrence once, at every depth; so its set is the set of the integers
  the specification contains.
\<close>

lemma flatten_positions_leaves:
  "flatten_positions L = concat (map leaves_of_item L)"
  by (induction L rule: flatten_positions.induct) simp_all

lemma set_leaves_of_item: "set (leaves_of_item x) = ints_in_item x"
  by (induction x) auto

lemma set_flatten_positions: "set (flatten_positions L) = ints_in L"
  by (simp add: flatten_positions_leaves ints_in_def set_leaves_of_item)

text \<open>
  C4. \<open>get_frames([])\<close> returns the empty list and leaves the reader as it is. On a reader
  that satisfies the invariant, with \<open>n\<close> the value of the property \<open>total_frames\<close> and
  every integer that the specification \<open>L\<close> contains, at any depth, in \<open>[0, n)\<close>: a list
  that \<open>get_frames(L)\<close> returns has exactly the positions of the sorted set of those
  integers, one frame for each, strictly ascending; the only exceptions it can raise are
  those of a failed read and of a zero frame rate; and it does return when the frame rate is
  not zero and every requested frame can be read.
\<close>

theorem get_frames_sorted_unique:
  "get_frames v [] uc r = (Inr [], r)
   \<and> (wf_reader v r \<and> fst (total_frames v r) = Inr (Some n)
        \<and> (\<forall>p \<in> ints_in L. 0 \<le> p \<and> p < n) \<longrightarrow>
        (case positions_of (get_frames v L uc r) of
           Inr ps \<Rightarrow> ps = sorted_list_of_set (ints_in L) \<and> sorted_wrt (<) ps
                      \<and> set ps = ints_in L
         | Inl e \<Rightarrow> e = RuntimeError_read \<or> e = ZeroDivisionError)
        \<and> (v_fps v \<noteq> 0 \<and> (\<forall>p \<in> ints_in L. v_frames v p \<noteq> None)
             \<longrightarrow> (\<exists>ps. positions_of (get_frames v L uc r) = Inr ps)))"
proof -
  have e: "get_frames v [] uc r = (Inr [], r)"
    by (simp add: get_frames_def get_frames_flat_def sorted_set_def)
  have "(case positions_of (get_frames v L uc r) of
           Inr ps \<Rightarrow> ps = sorted_list_of_set (ints_in L) \<and> sorted_wrt (<) ps
                      \<and> set ps = ints_in L
         | Inl e \<Rightarrow> e = RuntimeError_read \<or> e = ZeroDivisionError)
        \<and> (v_fps v \<noteq> 0 \<and> (\<forall>p \<in> ints_in L. v_frames v p \<noteq> None)
             \<longrightarrow> (\<exists>ps. positions_of (get_frames v L uc r) = Inr ps))"
    if h: "wf_reader v r" "fst (total_frames v r) = Inr (Some n)"
      "\<forall>p \<in> ints_in L. 0 \<le> p \<and> p < n"
  proof -
    let ?qs = "flatten_positions L"
    have q: "set ?qs = ints_in L" by (rule set_flatten_positions)
    from h(3) q have range: "\<forall>p \<in> set ?qs. 0 \<le> p \<and> p < n" by simp
    have fin: "finite (ints_in L)" using q [symmetric] by simp
    have "sorted_wrt (<) (sorted_list_of_set (ints_in L))"
      by (simp add: strict_sorted_iff)
    moreover have "set (sorted_list_of_set (ints_in L)) = ints_in L"
      using fin by simp
    ultimately show ?thesis
      using get_frames_flat_in_range [OF h(1,2) range, of uc] q
      by (cases "fst (get_frames_flat v ?qs uc r)")
        (auto simp: get_frames_def positions_of_def)
  qed
  with e show ?thesis by blast
qed

theorem get_frames_sorted_unique_witness:
  "wf_reader demo_video new_reader
   \<and> fst (total_frames demo_video new_reader) = Inr (Some 100)
   \<and> ints_in demo_positions = {7, 10, 20}
   \<and> v_fps demo_video \<noteq> 0
   \<and> positions_of (get_frames demo_video demo_positions True new_reader) = Inr [7, 10, 20]
   \<and> get_frames demo_video [] True new_reader = (Inr [], new_reader)"
proof -
  have i: "ints_in demo_positions = {7, 10, 20}"
    by (auto simp: demo_positions_def ints_in_def)
  have range: "\<forall>p \<in> ints_in demo_positions. 0 \<le> p \<and> p < 100"
    by (simp add: i)
  have fps: "v_fps demo_video \<noteq> 0" by (simp add: demo_video_def)
  have reads: "\<forall>p \<in> ints_in demo_positions. v_frames demo_video p \<noteq> None"
    by (simp add: i demo_video_def)
  have "sorted_list_of_set {7, 10, 20 :: int} = sorted_list_of_set (set [7, 10, 20])"
    by simp
  also have "\<dots> = [7, 10, 20]"
    unfolding sorted_set_eq [symmetric] by (simp add: sorted_set_def)
  finally have s: "sorted_list_of_set (ints_in demo_positions) = [7, 10, 20]"
    by (simp add: i)
  note t = get_frames_sorted_unique [of demo_video True new_reader 100 demo_positions]
  from t demo_wf demo_total_frames range fps reads
  obtain ps where p: "positions_of (get_frames demo_video demo_positions True new_reader) = Inr ps"
    by blast
  with t demo_wf demo_total_frames range s have "ps = [7, 10, 20]" by simp
  with p t demo_wf demo_total_frames i fps show ?thesis by simp
qed

section \<open>Frames around positions\<close>

lemma around_loop_known:
  "r_total_frames r = Some n \<Longrightarrow>
     around_loop v h cs r = (Inr (concat (map (window_around n h) cs)), r)"
  by (induction cs) (simp_all add: total_frames_known window_around_def Let_def)

lemma around_loop_in_range:
  assumes wf: "wf_reader v r" and f: "fst (total_frames v r) = Inr (Some n)"
  shows "\<exists>r'. around_loop v h cs r = (Inr (concat (map (window_around n h) cs)), r')
            \<and> wf_reader v r' \<and> fst (total_frames v r') = Inr (Some n)"
proof (cases cs)
  case Nil
  with wf f show ?thesis by simp
next
  case (Cons c rest)
  obtain r0 where t: "total_frames v r = (Inr (Some n), r0)"
    using f by (cases "total_frames v r") simp
  from total_frames_wf [OF wf t] total_frames_Some [OF wf t]
  have w0: "wf_reader v r0" and n0: "r_total_frames r0 = Some n" by simp_all
  from around_loop_known [OF n0, of v h rest] t Cons
  have "around_loop v h cs r = (Inr (concat (map (window_around n h) cs)), r0)"
    by (simp add: window_around_def Let_def)
  with w0 n0 show ?thesis by (simp add: total_frames_known)
qed

lemma set_window_around: "set (window_around n h c) = {max 0 (c - h)..min (n - 1) (c + h)}"
  by (simp add: window_around_def py_range_def Let_def)

lemma window_around_inside: "p \<in> set (window_around n h c) \<Longrightarrow> 0 \<le> p \<and> p < n"
  by (auto simp: set_window_around)

lemma window_around_far:
  assumes "0 \<le> h" and "h \<le> c" and "c + h < n"
  shows "window_around n h c = [c - h..c + h]"
    and "int (length (window_around n h c)) = 2 * h + 1"
  using assms by (simp_all add: window_around_def py_range_def Let_def)

text \<open>
  What the call returns, for every window size. On a reader that satisfies the invariant,
  with \<open>n\<close> the value of the property \<open>total_frames\<close>: the frames returned are those of
  the ascending union, without duplicates, of the windows
  \<open>max(0, c - w // 2) .. min(n - 1, c + w // 2)\<close> of the centres; the call returns when
  the frame rate is not zero and every frame of the video can be read.
\<close>

lemma frames_around_union:
  assumes wf: "wf_reader v r" and f: "fst (total_frames v r) = Inr (Some n)"
  shows "(case positions_of (get_frames_around_positions v cs w uc r) of
            Inr ps \<Rightarrow>
              ps = sorted_list_of_set
                     (\<Union>c \<in> set cs. {max 0 (c - w div 2)..min (n - 1) (c + w div 2)})
          | Inl e \<Rightarrow> e = RuntimeError_read \<or> e = ZeroDivisionError)
       \<and> (v_fps v \<noteq> 0 \<and> (\<forall>q. 0 \<le> q \<and> q < n \<longrightarrow> v_frames v q \<noteq> None)
            \<longrightarrow> (\<exists>ps. positions_of (get_frames_around_positions v cs w uc r) = Inr ps))"
proof -
  let ?h = "w div 2"
  let ?qs = "concat (map (window_around n ?h) cs)"
  from around_loop_in_range [OF wf f, of ?h cs]
  obtain r' where a: "around_loop v ?h cs r = (Inr ?qs, r')"
    and w': "wf_reader v r'" and f': "fst (total_frames v r') = Inr (Some n)"
    by blast
  have g: "get_frames_around_positions v cs w uc r = get_frames_flat v ?qs uc r'"
    using a by (simp add: get_frames_around_positions_def)
  have inside: "\<forall>p \<in> set ?qs. 0 \<le> p \<and> p < n"
    using window_around_inside by auto
  have u: "set ?qs = (\<Union>c \<in> set cs. {max 0 (c - ?h)..min (n - 1) (c + ?h)})"
    by (simp add: set_window_around)
  note k = get_frames_flat_in_range [OF w' f' inside, of uc]
  have one: "case positions_of (get_frames_around_positions v cs w uc r) of
            Inr ps \<Rightarrow>
              ps = sorted_list_of_set (\<Union>c \<in> set cs. {max 0 (c - ?h)..min (n - 1) (c + ?h)})
          | Inl e \<Rightarrow> e = RuntimeError_read \<or> e = ZeroDivisionError"
    using k u by (cases "fst (get_frames_flat v ?qs uc r')") (simp_all add: g positions_of_def)
  have two: "\<exists>ps. positions_of (get_frames_around_positions v cs w uc r) = Inr ps"
    if "v_fps v \<noteq> 0" "\<forall>q. 0 \<le> q \<and> q < n \<longrightarrow> v_frames v q \<noteq> None"
  proof -
    from that inside have "v_fps v \<noteq> 0 \<and> (\<forall>p \<in> set ?qs. v_frames v p \<noteq> None)" by blast
    with k obtain fds where "fst (get_frames_flat v ?qs uc r') = Inr fds" by blast
    then show ?thesis by (simp add: g positions_of_def)
  qed
  from one two show ?thesis by blast
qed

text \<open>
  For an odd \<open>window_size\<close> the window of a centre at least \<open>window_size // 2\<close> away from
  both ends of the video has exactly \<open>window_size\<close> positions.
\<close>

lemma window_around_odd:
  assumes "1 \<le> w" and "odd w" and "w div 2 \<le> c" and "c + w div 2 < n"
  shows "window_around n (w div 2) c = [c - w div 2..c + w div 2]
       \<and> int (length (window_around n (w div 2) c)) = w"
proof -
  from assms(1) have h0: "0 \<le> w div 2" by simp
  from assms(2) have "2 * (w div 2) + 1 = w" by presburger
  with window_around_far [OF h0 assms(3,4)] show ?thesis by simp
qed

text \<open>The case of the tests: five frames around the positions 2 and 97 of 100 frames.\<close>

lemma frames_around_size_five:
  "positions_of (get_frames_around_positions demo_video [2, 97] 5 True new_reader)
     = Inr [0, 1, 2, 3, 4, 95, 96, 97, 98, 99]"
proof -
  have fps: "v_fps demo_video \<noteq> 0" by (simp add: demo_video_def)
  have reads: "\<forall>q. 0 \<le> q \<and> q < 100 \<longrightarrow> v_frames demo_video q \<noteq> None"
    by (simp add: demo_video_def)
  have s: "sorted_list_of_set
             (\<Union>c \<in> set [2, 97]. {max 0 (c - 5 div 2)..min (100 - 1) (c + 5 div 2)})
           = [0, 1, 2, 3, 4, 95, 96, 97, 98, 99 :: int]"
  proof -
    have "(\<Union>c \<in> set [2, 97]. {max 0 (c - 5 div 2)..min (100 - 1) (c + 5 div 2)})
          = set [0, 1, 2, 3, 4, 95, 96, 97, 98, 99 :: int]"
      by (auto simp: max_def min_def)
    then show ?thesis
      unfolding sorted_set_eq [symmetric] by (simp add: sorted_set_def)
  qed
  note t5 = frames_around_union [OF demo_wf demo_total_frames,
      where cs = "[2, 97]" and w = 5 and uc = True]
  from t5 fps reads obtain ps where
    p: "positions_of (get_frames_around_positions demo_video [2, 97] 5 True new_reader) = Inr ps"
    by blast
  with t5 s have "ps = [0, 1, 2, 3, 4, 95, 96, 97, 98, 99]" by simp
  with p show ?thesis by simp
qed

text \<open>
  C5. The claim: for every \<open>window_size >= 1\<close> each centre is expanded to exactly
  \<open>window_size\<close> positions, and a centre far from both ends of the video contributes
  exactly that many; the docstring of \<open>get_frames_around_positions\<close> says the same of
  \<open>window_size\<close>. The code at \<open>window_size = 4\<close>, centre 50, on a video of 100 frames:
  the five frames 48 to 52 are returned.
\<close>

theorem around_even_window_has_five:
  "positions_of (get_frames_around_positions demo_video [50] 4 True new_reader)
     = Inr [48, 49, 50, 51, 52]"
  by (simp add: positions_of_def get_frames_around_positions_def get_frames_flat_def
      sorted_set_def window_around_def py_range_def upto.simps get_frame_at_position_def
      total_frames_def reader_open_def demo_video_def new_reader_def decode_frame_def
      cap_read_def fps_def Let_def)

end
